theory Spec2Isabelle
  imports Main "HOL-Library.Word"
begin

section \<open>Leader election facade (pkg/leaderelection/leaderelection.go)\<close>

text \<open>
  The file wraps the leader-election engine of client-go: a constructor \<open>New\<close>, four
  accessors, and \<open>Run\<close>, which hands the engine a fixed configuration and three callbacks.
  Every Go method is a function on an explicit state; a Go \<open>error\<close> result is the left
  summand of a sum, a runtime panic is a value of type \<open>panic\<close>.
\<close>

subsection \<open>Errors (github.com/pkg/errors)\<close>

datatype error = Error string

text \<open>\<open>errors.Wrap(err, msg)\<close> on a non-nil error: the message is \<open>msg: cause\<close>.\<close>

fun Wrap :: "error \<Rightarrow> string \<Rightarrow> error" where
  "Wrap (Error cause) msg = Error (msg @ '': '' @ cause)"

text \<open>
  Runtime panics: a \<open>go\<close> statement on a nil function value, and a method call on a nil
  interface value.
\<close>

datatype panic = NilFuncCall | NilPointerDereference

subsection \<open>The collaborators consumed by the facade\<close>

text \<open>
  \<open>kubeClient.CoreV1()\<close> and \<open>kubeClient.CoordinationV1()\<close> are the two typed views of
  the client handed to \<open>New\<close>. The client is an interface value: nil (\<open>None\<close>) or a
  client \<open>Some c\<close> with \<open>c\<close> of type \<open>'c\<close>. A method call on the nil interface panics.
\<close>

datatype 'c client = CoreV1 'c | CoordinationV1 'c

record ResourceLockConfig =
  Identity :: string

text \<open>
  Modelled from the spec: the lock handle of client-go's resourcelock package, which is
  not part of this repository. Section 6 of the specification gives its contract: the
  handle is bound to a named record of the lock service and its \<open>identity()\<close> is the
  caller's own identity, fixed at construction. The handle therefore keeps the arguments
  it was built from, and \<open>lock_Identity\<close> reads the identity of its configuration.
\<close>

record 'c resourcelock =
  lockType :: string
  lock_namespace :: string
  lock_name :: string
  coreClient :: "'c client"
  coordinationClient :: "'c client"
  LockConfig :: ResourceLockConfig

definition lock_Identity :: "'c resourcelock \<Rightarrow> string" where
  "lock_Identity l = Identity (LockConfig l)"

definition ConfigMapsResourceLock :: string where
  "ConfigMapsResourceLock = ''configmaps''"

text \<open>
  What the surroundings answer during one call of \<open>New\<close>: the result of \<open>os.Hostname()\<close>,
  the value of \<open>uuid.NewUUID()\<close>, and whether \<open>resourcelock.New\<close> refuses the arguments
  it is given (lock type, namespace, name, configuration).
\<close>

record env =
  Hostname :: "error + string"
  NewUUID :: string
  lockRefused :: "string \<Rightarrow> string \<Rightarrow> string \<Rightarrow> ResourceLockConfig \<Rightarrow> error option"

definition resourcelock_New ::
  "env \<Rightarrow> string \<Rightarrow> string \<Rightarrow> string \<Rightarrow> 'c client \<Rightarrow> 'c client \<Rightarrow> ResourceLockConfig
     \<Rightarrow> error + 'c resourcelock" where
  "resourcelock_New e lt ns nm core coord rlc =
     (case lockRefused e lt ns nm rlc of
        Some err \<Rightarrow> Inl err
      | None \<Rightarrow> Inr \<lparr>lockType = lt, lock_namespace = ns, lock_name = nm,
                     coreClient = core, coordinationClient = coord, LockConfig = rlc\<rparr>)"

text \<open>
  The logger (logr): a logger value carries the key/value pairs attached to it so far;
  \<open>WithValues\<close> returns a logger with more of them, \<open>Info\<close> emits one entry.
\<close>

type_synonym logger = "(string \<times> string) list"
type_synonym log_entry = "(string \<times> string) list \<times> string"

definition WithValues :: "logger \<Rightarrow> (string \<times> string) list \<Rightarrow> logger" where
  "WithValues l kvs = l @ kvs"

definition Info :: "logger \<Rightarrow> string \<Rightarrow> log_entry list \<Rightarrow> log_entry list" where
  "Info l msg out = out @ [(l, msg)]"

subsection \<open>The struct and its constructor\<close>

text \<open>
  The struct \<open>leaderElection\<close>. \<open>startWork\<close> and \<open>stopWork\<close> are Go function values and may
  be nil (\<open>None\<close>); \<open>isLeader\<close> is an \<open>int64\<close>. The field \<open>id\<close> is called \<open>id_field\<close> here.
\<close>

record ('c, 'p) leaderElection =
  name :: string
  namespace :: string
  id_field :: string
  startWork :: "'p option"
  stopWork :: "'p option"
  kubeClient :: "'c option"
  lock :: "'c resourcelock"
  isLeader :: "64 word"
  log :: logger

text \<open>
  \<open>New\<close> has three outcomes: a panic, an error, an instance. The arguments of
  \<open>resourcelock.New\<close> are evaluated before the call, so a nil \<open>kubeClient\<close> panics at
  \<open>kubeClient.CoreV1()\<close> once the host name is known. The struct literal sets seven
  fields; \<open>id\<close> and \<open>isLeader\<close> keep Go's zero values. The arguments of the second message
  are passed as \<open>namespace, name\<close>, in that order, as in the source.
\<close>

definition New ::
  "env \<Rightarrow> string \<Rightarrow> string \<Rightarrow> 'c option \<Rightarrow> 'p option \<Rightarrow> 'p option \<Rightarrow> logger
     \<Rightarrow> panic + (error + ('c, 'p) leaderElection)" where
  "New e nm ns kc startW stopW lg =
     (case Hostname e of
        Inl err \<Rightarrow> Inr (Inl (Wrap err ''error fetching hostname''))
      | Inr host \<Rightarrow>
          (let ident = host @ ''_'' @ NewUUID e in
           case kc of
             None \<Rightarrow> Inl NilPointerDereference
           | Some c \<Rightarrow>
               (case resourcelock_New e ConfigMapsResourceLock ns nm (CoreV1 c)
                       (CoordinationV1 c) \<lparr>Identity = ident\<rparr> of
                  Inl err \<Rightarrow>
                    Inr (Inl (Wrap err (''error creating lock for leader election '' @ ns
                                        @ '' in namespace '' @ nm)))
                | Inr lk \<Rightarrow>
                    Inr (Inr \<lparr>name = nm, namespace = ns, id_field = [], startWork = startW,
                              stopWork = stopW, kubeClient = kc, lock = lk, isLeader = 0,
                              log = lg\<rparr>))))"

subsection \<open>The state the methods run on\<close>

text \<open>
  The instance, the entries written to the log sink so far, and the goroutines started
  so far: \<open>go f()\<close> puts \<open>f\<close> into \<open>goroutines\<close> and returns at once; it does not run \<open>f\<close>.
  A \<open>go\<close> statement on a nil function value is a runtime panic.
\<close>

record ('c, 'p) state =
  le :: "('c, 'p) leaderElection"
  sink :: "log_entry list"
  goroutines :: "'p list"

definition go_stmt :: "'p option \<Rightarrow> ('c, 'p) state \<Rightarrow> panic + ('c, 'p) state" where
  "go_stmt f st =
     (case f of
        None \<Rightarrow> Inl NilFuncCall
      | Some p \<Rightarrow> Inr (st\<lparr>goroutines := goroutines st @ [p]\<rparr>))"

definition StoreInt64_isLeader :: "64 word \<Rightarrow> ('c, 'p) state \<Rightarrow> ('c, 'p) state" where
  "StoreInt64_isLeader v st = st\<lparr>le := (le st)\<lparr>isLeader := v\<rparr>\<rparr>"

definition LoadInt64_isLeader :: "('c, 'p) state \<Rightarrow> 64 word" where
  "LoadInt64_isLeader st = isLeader (le st)"

subsection \<open>Accessors\<close>

text \<open>Each accessor returns its value together with the state it leaves behind.\<close>

definition Name :: "('c, 'p) state \<Rightarrow> string \<times> ('c, 'p) state" where
  "Name st = (name (le st), st)"

definition Namespace :: "('c, 'p) state \<Rightarrow> string \<times> ('c, 'p) state" where
  "Namespace st = (namespace (le st), st)"

definition IsLeader :: "('c, 'p) state \<Rightarrow> bool \<times> ('c, 'p) state" where
  "IsLeader st = (LoadInt64_isLeader st = 1, st)"

definition ID :: "('c, 'p) state \<Rightarrow> string \<times> ('c, 'p) state" where
  "ID st = (lock_Identity (lock (le st)), st)"

subsection \<open>Run and its callbacks\<close>

text \<open>The three closures of \<open>Run\<close>; each captures the instance, here the state.\<close>

definition OnStartedLeading :: "'x \<Rightarrow> ('c, 'p) state \<Rightarrow> panic + ('c, 'p) state" where
  "OnStartedLeading ctx st =
     (let st1 = StoreInt64_isLeader 1 st;
          st2 = st1\<lparr>sink := Info (WithValues (log (le st1))
                                     [(''id'', lock_Identity (lock (le st1)))])
                                 ''started leading'' (sink st1)\<rparr>
      in if startWork (le st2) \<noteq> None then go_stmt (startWork (le st2)) st2 else Inr st2)"

definition OnStoppedLeading :: "('c, 'p) state \<Rightarrow> panic + ('c, 'p) state" where
  "OnStoppedLeading st =
     (let st1 = StoreInt64_isLeader 0 st;
          st2 = st1\<lparr>sink := Info (WithValues (log (le st1))
                                     [(''id'', lock_Identity (lock (le st1)))])
                                 ''stopped leading'' (sink st1)\<rparr>
      in if stopWork (le st2) \<noteq> None then go_stmt (stopWork (le st2)) st2 else Inr st2)"

definition OnNewLeader :: "string \<Rightarrow> ('c, 'p) state \<Rightarrow> panic + ('c, 'p) state" where
  "OnNewLeader identity st =
     (if identity = lock_Identity (lock (le st)) then Inr st
      else Inr (st\<lparr>sink := Info (WithValues (log (le st))
                                     [(''current id'', lock_Identity (lock (le st))),
                                      (''leader'', identity)])
                                 ''another instance has been elected as leader''
                                 (sink st)\<rparr>))"

text \<open>\<open>time.Duration\<close> is an \<open>int64\<close> of nanoseconds.\<close>

definition Second :: "64 word" where
  "Second = 1000000000"

record ('x, 'c, 'p) LeaderCallbacks =
  cb_OnStartedLeading :: "'x \<Rightarrow> ('c, 'p) state \<Rightarrow> panic + ('c, 'p) state"
  cb_OnStoppedLeading :: "('c, 'p) state \<Rightarrow> panic + ('c, 'p) state"
  cb_OnNewLeader :: "string \<Rightarrow> ('c, 'p) state \<Rightarrow> panic + ('c, 'p) state"

record ('x, 'c, 'p) LeaderElectionConfig =
  Lock :: "'c resourcelock"
  ReleaseOnCancel :: bool
  LeaseDuration :: "64 word"
  RenewDeadline :: "64 word"
  RetryPeriod :: "64 word"
  Callbacks :: "('x, 'c, 'p) LeaderCallbacks"

definition Run_config :: "('c, 'p) state \<Rightarrow> ('x, 'c, 'p) LeaderElectionConfig" where
  "Run_config st =
     \<lparr>Lock = lock (le st),
      ReleaseOnCancel = True,
      LeaseDuration = 15 * Second,
      RenewDeadline = 10 * Second,
      RetryPeriod = 2 * Second,
      Callbacks = \<lparr>cb_OnStartedLeading = OnStartedLeading,
                   cb_OnStoppedLeading = OnStoppedLeading,
                   cb_OnNewLeader = OnNewLeader\<rparr>\<rparr>"

text \<open>
  \<open>Run\<close> passes the context and this configuration to the engine's \<open>RunOrDie\<close>, which is
  client-go's and is a parameter here.
\<close>

definition Run ::
  "('x \<Rightarrow> ('x, 'c, 'p) LeaderElectionConfig \<Rightarrow> ('c, 'p) state \<Rightarrow> 'r)
     \<Rightarrow> 'x \<Rightarrow> ('c, 'p) state \<Rightarrow> 'r" where
  "Run RunOrDie ctx st = RunOrDie ctx (Run_config st) st"

subsection \<open>Sequences of calls on one instance\<close>

text \<open>
  What can happen to an instance once it exists: a caller reads it through one of the
  accessors, or the engine invokes one of the callbacks of the configuration. A sequence
  of such calls is run in order and stops at the first panic.
\<close>

datatype 'x call =
    CallName | CallNamespace | CallID | CallIsLeader
  | StartedLeading 'x | StoppedLeading | NewLeader string

fun exec :: "'x call \<Rightarrow> ('c, 'p) state \<Rightarrow> panic + ('c, 'p) state" where
  "exec CallName st = Inr (snd (Name st))"
| "exec CallNamespace st = Inr (snd (Namespace st))"
| "exec CallID st = Inr (snd (ID st))"
| "exec CallIsLeader st = Inr (snd (IsLeader st))"
| "exec (StartedLeading ctx) st = cb_OnStartedLeading (Callbacks (Run_config st)) ctx st"
| "exec StoppedLeading st =
     cb_OnStoppedLeading (Callbacks (Run_config st :: ('x, 'c, 'p) LeaderElectionConfig)) st"
| "exec (NewLeader i) st =
     cb_OnNewLeader (Callbacks (Run_config st :: ('x, 'c, 'p) LeaderElectionConfig)) i st"

fun exec_all :: "'x call list \<Rightarrow> ('c, 'p) state \<Rightarrow> panic + ('c, 'p) state" where
  "exec_all [] st = Inr st"
| "exec_all (c # cs) st = (case exec c st of Inl p \<Rightarrow> Inl p | Inr st' \<Rightarrow> exec_all cs st')"

text \<open>The state right after construction: nothing logged by the instance, nothing started.\<close>

definition init :: "('c, 'p) leaderElection \<Rightarrow> ('c, 'p) state" where
  "init l = \<lparr>le = l, sink = [], goroutines = []\<rparr>"

subsection \<open>The handlers statement by statement\<close>

text \<open>
  The engine may run the two handlers on different goroutines, so their statements can
  interleave. Only the store is atomic. Each handler is three statements: the atomic
  store, the log call, and the guarded \<open>go\<close> statement. A schedule is a list of statements
  in the order in which they take effect.
\<close>

datatype stmt =
    StoreStarted | LogStarted | GoStartWork
  | StoreStopped | LogStopped | GoStopWork

fun exec_stmt :: "stmt \<Rightarrow> ('c, 'p) state \<Rightarrow> panic + ('c, 'p) state" where
  "exec_stmt StoreStarted st = Inr (StoreInt64_isLeader 1 st)"
| "exec_stmt LogStarted st =
     Inr (st\<lparr>sink := Info (WithValues (log (le st)) [(''id'', lock_Identity (lock (le st)))])
                         ''started leading'' (sink st)\<rparr>)"
| "exec_stmt GoStartWork st =
     (if startWork (le st) \<noteq> None then go_stmt (startWork (le st)) st else Inr st)"
| "exec_stmt StoreStopped st = Inr (StoreInt64_isLeader 0 st)"
| "exec_stmt LogStopped st =
     Inr (st\<lparr>sink := Info (WithValues (log (le st)) [(''id'', lock_Identity (lock (le st)))])
                         ''stopped leading'' (sink st)\<rparr>)"
| "exec_stmt GoStopWork st =
     (if stopWork (le st) \<noteq> None then go_stmt (stopWork (le st)) st else Inr st)"

fun run_stmts :: "stmt list \<Rightarrow> ('c, 'p) state \<Rightarrow> panic + ('c, 'p) state" where
  "run_stmts [] st = Inr st"
| "run_stmts (s # ss) st =
     (case exec_stmt s st of Inl p \<Rightarrow> Inl p | Inr st' \<Rightarrow> run_stmts ss st')"

definition body_OnStartedLeading :: "stmt list" where
  "body_OnStartedLeading = [StoreStarted, LogStarted, GoStartWork]"

definition body_OnStoppedLeading :: "stmt list" where
  "body_OnStoppedLeading = [StoreStopped, LogStopped, GoStopWork]"

definition IsLeader_after :: "stmt list \<Rightarrow> ('c, 'p) state \<Rightarrow> panic + bool" where
  "IsLeader_after ss st =
     (case run_stmts ss st of Inl p \<Rightarrow> Inl p | Inr st' \<Rightarrow> Inr (fst (IsLeader st')))"

subsection \<open>The lock service\<close>

text \<open>
  Modelled from the spec: the lock service, which is not part of this repository. Section 3
  gives the lock record, section 6 the operations. A conditional update presents the token
  last observed and fails on a stale one; a create presents no token and fails when the
  record exists. Every successful write gives the record a new token.
\<close>

record LockRecord =
  holderIdentity :: string
  leaseDurationSeconds :: nat
  renewTimestamp :: nat
  leaderTransitions :: nat
  optimisticToken :: nat

datatype response = Ok | Conflict

definition createOrUpdate ::
  "LockRecord \<Rightarrow> nat option \<Rightarrow> LockRecord option \<Rightarrow> response \<times> LockRecord option" where
  "createOrUpdate r expected svc =
     (case expected of
        None \<Rightarrow>
          (case svc of
             None \<Rightarrow> (Ok, Some (r\<lparr>optimisticToken := 0\<rparr>))
           | Some cur \<Rightarrow> (Conflict, svc))
      | Some t \<Rightarrow>
          (case svc of
             None \<Rightarrow> (Conflict, svc)
           | Some cur \<Rightarrow>
               if optimisticToken cur = t then (Ok, Some (r\<lparr>optimisticToken := Suc t\<rparr>))
               else (Conflict, svc)))"

subsection \<open>The election engine\<close>

text \<open>
  Modelled from the spec: the election engine behind \<open>RunOrDie\<close>, which is client-go's and
  not part of this repository, as section 4.1 describes its loop. Several instances run
  it against one lock record; \<open>now\<close> is the time in nanoseconds. Each instance is the
  state of this file's facade together with what the engine keeps for it: its phase, the
  record it read last, the time of its last successful write, the identity it reported
  last. The engine uses the configuration \<open>Run\<close> gives it: the lease duration, the
  identity of the lock handle, and the three callbacks.

  The steps of one instance:
  \<^item> \<open>Read\<close> (steps 1 and 4): read the record; report a holder that is another, still
    valid identity through \<open>OnNewLeader\<close>, once per change.
  \<^item> \<open>TryAcquire\<close> (step 2): when the record read last is absent, has no holder, names
    this instance or has expired, create or update it conditionally with this identity;
    on success fire \<open>OnStartedLeading\<close>.
  \<^item> \<open>Renew\<close> (step 3): while leading and named as holder, refresh the time stamp
    conditionally.
  \<^item> \<open>Concede\<close> (step 3): give up after failed renewals; fire \<open>OnStoppedLeading\<close>.
  \<^item> \<open>CancelRelease\<close>, then \<open>CancelStop\<close> (step 6): on cancellation a leader first clears
    the holder with a best-effort conditional update, then fires \<open>OnStoppedLeading\<close>.
  A failed or missing answer of the service is a step that does not happen; \<open>Tick\<close> lets
  time pass. A schedule is a list of such steps of any instances in any order.
\<close>

datatype phase = Standby | Leading | Releasing | Stopped

record ('c, 'p) node =
  facade :: "('c, 'p) state"
  phase :: phase
  observed :: "LockRecord option"
  lastRenew :: nat
  lastNotified :: string

record ('c, 'p) cluster =
  nodes :: "('c, 'p) node list"
  service :: "LockRecord option"
  now :: nat

definition ident :: "('c, 'p) node \<Rightarrow> string" where
  "ident n = fst (ID (facade n))"

definition leaseDuration_of :: "('c, 'p) node \<Rightarrow> nat" where
  "leaseDuration_of n =
     nat (sint (LeaseDuration (Run_config (facade n) :: (unit, 'c, 'p) LeaderElectionConfig)))"

definition expired :: "('c, 'p) node \<Rightarrow> nat \<Rightarrow> LockRecord \<Rightarrow> bool" where
  "expired n t r \<longleftrightarrow> renewTimestamp r + leaseDuration_of n < t"

definition fire :: "'x call \<Rightarrow> ('c, 'p) node \<Rightarrow> panic + ('c, 'p) node" where
  "fire c n = (case exec c (facade n) of Inl p \<Rightarrow> Inl p | Inr st' \<Rightarrow> Inr (n\<lparr>facade := st'\<rparr>))"

datatype 'x action = Read | TryAcquire 'x | Renew | Concede | CancelRelease | CancelStop

datatype 'x event = Act nat "'x action" | Tick nat

fun node_act ::
  "'x action \<Rightarrow> nat \<Rightarrow> LockRecord option \<Rightarrow> ('c, 'p) node
     \<Rightarrow> panic + (('c, 'p) node \<times> LockRecord option)" where
  "node_act Read t svc n =
     (if phase n = Standby \<or> phase n = Leading then
        (case svc of
           None \<Rightarrow> Inr (n\<lparr>observed := None\<rparr>, svc)
         | Some r \<Rightarrow>
             if holderIdentity r \<noteq> [] \<and> holderIdentity r \<noteq> ident n \<and> \<not> expired n t r
                \<and> holderIdentity r \<noteq> lastNotified n
             then (case fire (NewLeader (holderIdentity r) :: 'x call) n of
                     Inl p \<Rightarrow> Inl p
                   | Inr n' \<Rightarrow>
                       Inr (n'\<lparr>observed := svc, lastNotified := holderIdentity r\<rparr>, svc))
             else Inr (n\<lparr>observed := svc\<rparr>, svc))
      else Inr (n, svc))"
| "node_act (TryAcquire ctx) t svc n =
     (if phase n = Standby \<and>
         (case observed n of
            None \<Rightarrow> True
          | Some r \<Rightarrow> holderIdentity r = [] \<or> holderIdentity r = ident n \<or> expired n t r)
      then
        (case createOrUpdate
                \<lparr>holderIdentity = ident n,
                 leaseDurationSeconds = leaseDuration_of n div nat (sint Second),
                 renewTimestamp = t,
                 leaderTransitions =
                   (case observed n of None \<Rightarrow> 0 | Some r \<Rightarrow> Suc (leaderTransitions r)),
                 optimisticToken = 0\<rparr>
                (map_option optimisticToken (observed n)) svc of
           (Ok, svc') \<Rightarrow>
             (case fire (StartedLeading ctx) n of
                Inl p \<Rightarrow> Inl p
              | Inr n' \<Rightarrow> Inr (n'\<lparr>phase := Leading, observed := svc', lastRenew := t\<rparr>, svc'))
         | (Conflict, svc') \<Rightarrow> Inr (n, svc))
      else Inr (n, svc))"
| "node_act Renew t svc n =
     (case observed n of
        None \<Rightarrow> Inr (n, svc)
      | Some r \<Rightarrow>
          if phase n = Leading \<and> holderIdentity r = ident n then
            (case createOrUpdate (r\<lparr>renewTimestamp := t\<rparr>) (Some (optimisticToken r)) svc of
               (Ok, svc') \<Rightarrow> Inr (n\<lparr>observed := svc', lastRenew := t\<rparr>, svc')
             | (Conflict, svc') \<Rightarrow> Inr (n, svc))
          else Inr (n, svc))"
| "node_act Concede t svc n =
     (if phase n = Leading then
        (case fire (StoppedLeading :: 'x call) n of
           Inl p \<Rightarrow> Inl p
         | Inr n' \<Rightarrow> Inr (n'\<lparr>phase := Standby\<rparr>, svc))
      else Inr (n, svc))"
| "node_act CancelRelease t svc n =
     (if phase n = Leading then
        (case observed n of
           None \<Rightarrow> Inr (n\<lparr>phase := Releasing\<rparr>, svc)
         | Some r \<Rightarrow>
             if holderIdentity r = ident n then
               (case createOrUpdate (r\<lparr>holderIdentity := []\<rparr>) (Some (optimisticToken r)) svc of
                  (Ok, svc') \<Rightarrow> Inr (n\<lparr>phase := Releasing, observed := svc'\<rparr>, svc')
                | (Conflict, svc') \<Rightarrow> Inr (n\<lparr>phase := Releasing\<rparr>, svc))
             else Inr (n\<lparr>phase := Releasing\<rparr>, svc))
      else if phase n = Standby then Inr (n\<lparr>phase := Stopped\<rparr>, svc)
      else Inr (n, svc))"
| "node_act CancelStop t svc n =
     (if phase n = Releasing then
        (case fire (StoppedLeading :: 'x call) n of
           Inl p \<Rightarrow> Inl p
         | Inr n' \<Rightarrow> Inr (n'\<lparr>phase := Stopped\<rparr>, svc))
      else Inr (n, svc))"

fun engine_step :: "'x event \<Rightarrow> ('c, 'p) cluster \<Rightarrow> panic + ('c, 'p) cluster" where
  "engine_step (Tick d) c = Inr (c\<lparr>now := now c + d\<rparr>)"
| "engine_step (Act i a) c =
     (if i < length (nodes c) then
        (case node_act a (now c) (service c) (nodes c ! i) of
           Inl p \<Rightarrow> Inl p
         | Inr (n', svc') \<Rightarrow> Inr (c\<lparr>nodes := (nodes c)[i := n'], service := svc'\<rparr>))
      else Inr c)"

fun run_engine :: "'x event list \<Rightarrow> ('c, 'p) cluster \<Rightarrow> panic + ('c, 'p) cluster" where
  "run_engine [] c = Inr c"
| "run_engine (e # es) c =
     (case engine_step e c of Inl p \<Rightarrow> Inl p | Inr c' \<Rightarrow> run_engine es c')"

definition leader_flags :: "('c, 'p) cluster \<Rightarrow> bool list" where
  "leader_flags c = map (\<lambda>n. fst (IsLeader (facade n))) (nodes c)"

definition leader_flags_after :: "'x event list \<Rightarrow> ('c, 'p) cluster \<Rightarrow> panic + bool list" where
  "leader_flags_after es c =
     (case run_engine es c of Inl p \<Rightarrow> Inl p | Inr c' \<Rightarrow> Inr (leader_flags c'))"

definition start_node :: "('c, 'p) leaderElection \<Rightarrow> ('c, 'p) node" where
  "start_node l =
     \<lparr>facade = init l, phase = Standby, observed = None, lastRenew = 0, lastNotified = []\<rparr>"

subsection \<open>What the engine maintains\<close>

text \<open>
  An instance is flagged leader exactly while it is leading or releasing. A leading
  instance is the holder named in the record, with the time stamp of its last write, or
  its lease has run out. The record an instance read last is the current one when the
  tokens agree. Identities are not empty and differ between instances.
\<close>

definition node_ok :: "LockRecord option \<Rightarrow> nat \<Rightarrow> ('c, 'p) node \<Rightarrow> bool" where
  "node_ok svc t n \<longleftrightarrow>
     (fst (IsLeader (facade n)) \<longleftrightarrow> (phase n = Leading \<or> phase n = Releasing)) \<and>
     (phase n = Leading \<longrightarrow>
        (\<exists>r. svc = Some r \<and> holderIdentity r = ident n \<and> renewTimestamp r = lastRenew n) \<or>
        lastRenew n + leaseDuration_of n < t) \<and>
     (\<forall>r'. observed n = Some r' \<longrightarrow>
        (\<exists>cur. svc = Some cur \<and> optimisticToken r' \<le> optimisticToken cur \<and>
           (optimisticToken r' = optimisticToken cur \<longrightarrow> r' = cur))) \<and>
     ident n \<noteq> []"

definition cluster_ok :: "('c, 'p) cluster \<Rightarrow> bool" where
  "cluster_ok c \<longleftrightarrow>
     (\<forall>n \<in> set (nodes c). node_ok (service c) (now c) n) \<and> distinct (map ident (nodes c))"

definition change_ok :: "LockRecord option \<Rightarrow> LockRecord option \<Rightarrow> string \<Rightarrow> nat \<Rightarrow> bool" where
  "change_ok svc svc' a t \<longleftrightarrow>
     svc' = svc \<or>
     (\<exists>new. svc' = Some new \<and>
        (case svc of
           None \<Rightarrow> True
         | Some cur \<Rightarrow>
             optimisticToken new = Suc (optimisticToken cur) \<and>
             (holderIdentity cur = [] \<or> holderIdentity cur = a \<or>
              renewTimestamp cur + 15000000000 < t)))"

text \<open>
  A live leader: flagged leader, not in the window between its release and its
  \<open>OnStoppedLeading\<close>, and within the lease of its last successful write.
\<close>

definition live_leader :: "('c, 'p) cluster \<Rightarrow> ('c, 'p) node \<Rightarrow> bool" where
  "live_leader c n \<longleftrightarrow>
     fst (IsLeader (facade n)) \<and> phase n \<noteq> Releasing \<and>
     now c \<le> lastRenew n + leaseDuration_of n"

subsection \<open>A concrete instance\<close>

text \<open>One environment in which construction succeeds, two in which it fails, and the
  instance the first one yields.\<close>

definition env_ok :: env where
  "env_ok = \<lparr>Hostname = Inr ''node-1'', NewUUID = ''0f3c'', lockRefused = (\<lambda>_ _ _ _. None)\<rparr>"

definition env_no_host :: env where
  "env_no_host = \<lparr>Hostname = Inl (Error ''no hostname''), NewUUID = ''0f3c'',
                   lockRefused = (\<lambda>_ _ _ _. None)\<rparr>"

definition env_no_lock :: env where
  "env_no_lock = \<lparr>Hostname = Inr ''node-1'', NewUUID = ''0f3c'',
                   lockRefused = (\<lambda>_ _ _ _. Some (Error ''invalid lock type''))\<rparr>"

definition example_le :: "(nat, nat) leaderElection" where
  "example_le =
     \<lparr>name = ''kyverno'', namespace = ''kyverno-ns'', id_field = [], startWork = Some 1,
      stopWork = None, kubeClient = Some 0,
      lock = \<lparr>lockType = ''configmaps'', lock_namespace = ''kyverno-ns'', lock_name = ''kyverno'',
               coreClient = CoreV1 0, coordinationClient = CoordinationV1 0,
               LockConfig = \<lparr>Identity = ''node-1_0f3c''\<rparr>\<rparr>,
      isLeader = 0, log = []\<rparr>"

definition env_ok2 :: env where
  "env_ok2 = \<lparr>Hostname = Inr ''node-2'', NewUUID = ''77aa'', lockRefused = (\<lambda>_ _ _ _. None)\<rparr>"

definition example_le2 :: "(nat, nat) leaderElection" where
  "example_le2 =
     \<lparr>name = ''kyverno'', namespace = ''kyverno-ns'', id_field = [], startWork = None,
      stopWork = None, kubeClient = Some 0,
      lock = \<lparr>lockType = ''configmaps'', lock_namespace = ''kyverno-ns'', lock_name = ''kyverno'',
               coreClient = CoreV1 0, coordinationClient = CoordinationV1 0,
               LockConfig = \<lparr>Identity = ''node-2_77aa''\<rparr>\<rparr>,
      isLeader = 0, log = []\<rparr>"

definition example_cluster :: "(nat, nat) cluster" where
  "example_cluster =
     \<lparr>nodes = [start_node example_le, start_node example_le2], service = None, now = 0\<rparr>"

definition release_window_schedule :: "unit event list" where
  "release_window_schedule =
     [Act 0 Read, Act 0 (TryAcquire ()), Act 0 CancelRelease, Act 1 Read, Act 1 (TryAcquire ())]"

text \<open>
  One invocation of each handler, overlapping: \<open>OnStoppedLeading\<close> stores first and
  finishes last.
\<close>

definition overlapping_schedule :: "stmt list" where
  "overlapping_schedule =
     [StoreStopped, StoreStarted, LogStarted, GoStartWork, LogStopped, GoStopWork]"

section \<open>Properties\<close>

subsection \<open>What the callbacks compute\<close>

lemma OnStartedLeading_Inr:
  "OnStartedLeading ctx st =
     Inr (st\<lparr>le := (le st)\<lparr>isLeader := 1\<rparr>,
             sink := sink st @ [(log (le st) @ [(''id'', lock_Identity (lock (le st)))],
                                 ''started leading'')],
             goroutines := goroutines st @ (case startWork (le st) of None \<Rightarrow> [] | Some p \<Rightarrow> [p])\<rparr>)"
  by (cases "startWork (le st)")
     (simp_all add: OnStartedLeading_def StoreInt64_isLeader_def Info_def WithValues_def
        go_stmt_def Let_def)

lemma OnStoppedLeading_Inr:
  "OnStoppedLeading st =
     Inr (st\<lparr>le := (le st)\<lparr>isLeader := 0\<rparr>,
             sink := sink st @ [(log (le st) @ [(''id'', lock_Identity (lock (le st)))],
                                 ''stopped leading'')],
             goroutines := goroutines st @ (case stopWork (le st) of None \<Rightarrow> [] | Some p \<Rightarrow> [p])\<rparr>)"
  by (cases "stopWork (le st)")
     (simp_all add: OnStoppedLeading_def StoreInt64_isLeader_def Info_def WithValues_def
        go_stmt_def Let_def)

lemma OnNewLeader_Inr:
  "OnNewLeader i st =
     Inr (if i = lock_Identity (lock (le st)) then st
          else st\<lparr>sink := sink st @ [(log (le st) @ [(''current id'', lock_Identity (lock (le st))),
                                                       (''leader'', i)],
                                      ''another instance has been elected as leader'')]\<rparr>)"
  by (simp add: OnNewLeader_def Info_def WithValues_def)

lemma exec_cases:
  "\<exists>st'. exec c st = Inr st' \<and>
     (le st' = le st \<or> le st' = (le st)\<lparr>isLeader := 1\<rparr> \<or> le st' = (le st)\<lparr>isLeader := 0\<rparr>)"
  by (cases c)
     (simp_all add: Name_def Namespace_def ID_def IsLeader_def Run_config_def
        OnStartedLeading_Inr OnStoppedLeading_Inr OnNewLeader_Inr)

subsection \<open>Sequences of calls\<close>

lemma exec_all_append:
  "exec_all (cs @ ds) st = (case exec_all cs st of Inl p \<Rightarrow> Inl p | Inr st' \<Rightarrow> exec_all ds st')"
  by (induction cs arbitrary: st) (simp_all split: sum.splits)

lemma exec_all_frame:
  "\<exists>st'. exec_all cs st = Inr st' \<and> (le st')\<lparr>isLeader := 0\<rparr> = (le st)\<lparr>isLeader := 0\<rparr> \<and>
      (isLeader (le st') = isLeader (le st) \<or> isLeader (le st') = 0 \<or> isLeader (le st') = 1)"
proof (induction cs arbitrary: st)
  case Nil
  show ?case by simp
next
  case (Cons c cs)
  obtain s1 where s1: "exec c st = Inr s1"
    and l1: "le s1 = le st \<or> le s1 = (le st)\<lparr>isLeader := 1\<rparr> \<or> le s1 = (le st)\<lparr>isLeader := 0\<rparr>"
    using exec_cases [of c st] by blast
  obtain s2 where s2: "exec_all cs s1 = Inr s2"
    and l2: "(le s2)\<lparr>isLeader := 0\<rparr> = (le s1)\<lparr>isLeader := 0\<rparr>"
    and v: "isLeader (le s2) = isLeader (le s1) \<or> isLeader (le s2) = 0 \<or> isLeader (le s2) = 1"
    using Cons.IH [of s1] by blast
  have "exec_all (c # cs) st = Inr s2" using s1 s2 by simp
  moreover have "(le s2)\<lparr>isLeader := 0\<rparr> = (le st)\<lparr>isLeader := 0\<rparr>"
    using l1 l2 by auto
  moreover have "isLeader (le s2) = isLeader (le st) \<or> isLeader (le s2) = 0 \<or> isLeader (le s2) = 1"
    using l1 v by auto
  ultimately show ?case by blast
qed

lemma frame_fields:
  assumes "a\<lparr>isLeader := 0\<rparr> = b\<lparr>isLeader := 0\<rparr>"
  shows "name a = name b" "namespace a = namespace b" "id_field a = id_field b"
    "startWork a = startWork b" "stopWork a = stopWork b" "kubeClient a = kubeClient b"
    "lock a = lock b" "log a = log b"
  using assms by (cases a, cases b, simp)+

lemma exec_reader:
  "c \<in> {CallName, CallNamespace, CallID, CallIsLeader} \<Longrightarrow> exec c st = Inr st"
  by (auto simp: Name_def Namespace_def ID_def IsLeader_def)

lemma exec_all_readers:
  "set rs \<subseteq> {CallName, CallNamespace, CallID, CallIsLeader} \<Longrightarrow> exec_all rs st = Inr st"
  by (induction rs) (simp_all add: exec_reader)

lemma exec_flag_writer:
  "exec c st = Inr st' \<Longrightarrow> isLeader (le st') \<noteq> isLeader (le st) \<Longrightarrow>
     (\<exists>ctx. c = StartedLeading ctx) \<or> c = StoppedLeading"
  by (cases c)
     (auto simp: Name_def Namespace_def ID_def IsLeader_def Run_config_def OnNewLeader_Inr
        split: if_splits)

lemma exec_all_standby:
  "\<forall>ctx. StartedLeading ctx \<notin> set cs \<Longrightarrow> isLeader (le st) = 0 \<Longrightarrow>
     \<exists>st'. exec_all cs st = Inr st' \<and> isLeader (le st') = 0"
proof (induction cs arbitrary: st)
  case Nil
  then show ?case by simp
next
  case (Cons c cs)
  have "\<exists>s1. exec c st = Inr s1 \<and> isLeader (le s1) = 0"
    using Cons.prems
    by (cases c)
       (auto simp: Name_def Namespace_def ID_def IsLeader_def Run_config_def
          OnStoppedLeading_Inr OnNewLeader_Inr)
  then obtain s1 where s1: "exec c st = Inr s1" and z: "isLeader (le s1) = 0" by blast
  from Cons.IH [OF _ z] Cons.prems(1) obtain s2 where "exec_all cs s1 = Inr s2" "isLeader (le s2) = 0"
    by auto
  then show ?case using s1 by simp
qed

lemma New_Inr_D:
  assumes "New e nm ns kc sw pw lg = Inr (Inr inst)"
  shows "\<exists>host c. Hostname e = Inr host \<and> kc = Some c \<and>
           lockRefused e ConfigMapsResourceLock ns nm \<lparr>Identity = host @ ''_'' @ NewUUID e\<rparr> = None \<and>
           inst = \<lparr>name = nm, namespace = ns, id_field = [], startWork = sw, stopWork = pw,
                   kubeClient = kc,
                   lock = \<lparr>lockType = ConfigMapsResourceLock, lock_namespace = ns, lock_name = nm,
                     coreClient = CoreV1 c, coordinationClient = CoordinationV1 c,
                     LockConfig = \<lparr>Identity = host @ ''_'' @ NewUUID e\<rparr>\<rparr>,
                   isLeader = 0, log = lg\<rparr>"
  using assms
  by (auto simp: New_def resourcelock_New_def Let_def split: sum.splits option.splits)

lemma New_example:
  "New env_ok ''kyverno'' ''kyverno-ns'' (Some (0::nat)) (Some (1::nat)) None [] =
     Inr (Inr example_le)"
  by (simp add: New_def env_ok_def resourcelock_New_def ConfigMapsResourceLock_def example_le_def)




lemma handlers_are_their_statements:
  "run_stmts body_OnStartedLeading st = OnStartedLeading ctx st"
  "run_stmts body_OnStoppedLeading st = OnStoppedLeading st"
  by (auto simp: body_OnStartedLeading_def body_OnStoppedLeading_def OnStartedLeading_def
      OnStoppedLeading_def Let_def StoreInt64_isLeader_def go_stmt_def)

lemma exec_stmt_cases:
  "\<exists>st'. exec_stmt s st = Inr st' \<and>
     (le st' = le st \<or> le st' = (le st)\<lparr>isLeader := 1\<rparr> \<or> le st' = (le st)\<lparr>isLeader := 0\<rparr>)"
  by (cases s; cases "startWork (le st)"; cases "stopWork (le st)")
     (simp_all add: StoreInt64_isLeader_def go_stmt_def)

lemma exec_stmt_no_store:
  "s \<noteq> StoreStarted \<Longrightarrow> s \<noteq> StoreStopped \<Longrightarrow>
     \<exists>st'. exec_stmt s st = Inr st' \<and> le st' = le st"
  by (cases s; cases "startWork (le st)"; cases "stopWork (le st)")
     (simp_all add: go_stmt_def)

lemma run_stmts_append:
  "run_stmts (ss @ ts) st =
     (case run_stmts ss st of Inl p \<Rightarrow> Inl p | Inr st' \<Rightarrow> run_stmts ts st')"
  by (induction ss arbitrary: st) (simp_all split: sum.splits)

lemma run_stmts_total: "\<exists>st'. run_stmts ss st = Inr st'"
proof (induction ss arbitrary: st)
  case Nil
  show ?case by simp
next
  case (Cons s ss)
  obtain s1 where "exec_stmt s st = Inr s1" using exec_stmt_cases [of s st] by blast
  then show ?case using Cons.IH [of s1] by simp
qed

lemma run_stmts_no_store:
  "StoreStarted \<notin> set ss \<Longrightarrow> StoreStopped \<notin> set ss \<Longrightarrow>
     \<exists>st'. run_stmts ss st = Inr st' \<and> le st' = le st"
proof (induction ss arbitrary: st)
  case Nil
  show ?case by simp
next
  case (Cons s ss)
  have "s \<noteq> StoreStarted" "s \<noteq> StoreStopped" using Cons.prems by auto
  then obtain s1 where 1: "exec_stmt s st = Inr s1" "le s1 = le st"
    using exec_stmt_no_store [of s st] by blast
  have "StoreStarted \<notin> set ss" "StoreStopped \<notin> set ss" using Cons.prems by auto
  from Cons.IH [OF this, of s1] 1 show ?case by simp
qed

lemma IsLeader_after_serial_callbacks:
  "(\<exists>st'. exec_all (cs @ [StartedLeading ctx]) st = Inr st' \<and> fst (IsLeader st') \<and>
       (\<forall>rs. set rs \<subseteq> {CallName, CallNamespace, CallID, CallIsLeader} \<longrightarrow>
          (\<exists>st''. exec_all rs st' = Inr st'' \<and> fst (IsLeader st'')))) \<and>
   (\<exists>st'. exec_all (cs @ [StoppedLeading]) st = Inr st' \<and> \<not> fst (IsLeader st') \<and>
       (\<forall>rs. set rs \<subseteq> {CallName, CallNamespace, CallID, CallIsLeader} \<longrightarrow>
          (\<exists>st''. exec_all rs st' = Inr st'' \<and> \<not> fst (IsLeader st''))))"
proof -
  obtain s1 where s1: "exec_all cs st = Inr s1"
    using exec_all_frame [of cs st] by blast
  let ?a = "s1\<lparr>le := (le s1)\<lparr>isLeader := 1\<rparr>,
      sink := sink s1 @ [(log (le s1) @ [(''id'', lock_Identity (lock (le s1)))], ''started leading'')],
      goroutines := goroutines s1 @ (case startWork (le s1) of None \<Rightarrow> [] | Some p \<Rightarrow> [p])\<rparr>"
  let ?b = "s1\<lparr>le := (le s1)\<lparr>isLeader := 0\<rparr>,
      sink := sink s1 @ [(log (le s1) @ [(''id'', lock_Identity (lock (le s1)))], ''stopped leading'')],
      goroutines := goroutines s1 @ (case stopWork (le s1) of None \<Rightarrow> [] | Some p \<Rightarrow> [p])\<rparr>"
  have a: "exec_all (cs @ [StartedLeading ctx]) st = Inr ?a"
    by (simp add: exec_all_append s1 Run_config_def OnStartedLeading_Inr)
  have b: "exec_all (cs @ [StoppedLeading]) st = Inr ?b"
    by (simp add: exec_all_append s1 Run_config_def OnStoppedLeading_Inr)
  have la: "fst (IsLeader ?a)" by (simp add: IsLeader_def LoadInt64_isLeader_def)
  have lb: "\<not> fst (IsLeader ?b)" by (simp add: IsLeader_def LoadInt64_isLeader_def)
  show ?thesis using a b la lb by (simp add: exec_all_readers)
qed

lemma IsLeader_after_store:
  assumes "StoreStarted \<notin> set post" and "StoreStopped \<notin> set post"
  shows "IsLeader_after (pre @ StoreStarted # post) st = Inr True"
    and "IsLeader_after (pre @ StoreStopped # post) st = Inr False"
proof -
  obtain s1 where 1: "run_stmts pre st = Inr s1" using run_stmts_total [of pre st] by blast
  obtain a where a: "run_stmts post (StoreInt64_isLeader 1 s1) = Inr a"
    "le a = le (StoreInt64_isLeader 1 s1)"
    using run_stmts_no_store [OF assms] by blast
  obtain b where b: "run_stmts post (StoreInt64_isLeader 0 s1) = Inr b"
    "le b = le (StoreInt64_isLeader 0 s1)"
    using run_stmts_no_store [OF assms] by blast
  show "IsLeader_after (pre @ StoreStarted # post) st = Inr True"
    using 1 a
    by (simp add: IsLeader_after_def run_stmts_append IsLeader_def LoadInt64_isLeader_def
        StoreInt64_isLeader_def)
  show "IsLeader_after (pre @ StoreStopped # post) st = Inr False"
    using 1 b
    by (simp add: IsLeader_after_def run_stmts_append IsLeader_def LoadInt64_isLeader_def
        StoreInt64_isLeader_def)
qed

text \<open>
  Claim C2, as the code has it. \<open>IsLeader()\<close> returns the value of the latest store to the
  flag. In every schedule of handler statements, if no store follows the store of
  \<open>OnStartedLeading\<close> then \<open>IsLeader()\<close> is true afterwards, and if no store follows the store
  of \<open>OnStoppedLeading\<close> it is false. Each handler is the sequence of its three statements,
  so for invocations that do not overlap, \<open>IsLeader()\<close> is true right after
  \<open>OnStartedLeading\<close> has completed and false right after \<open>OnStoppedLeading\<close> has completed,
  and any number of readers calling the accessors afterwards see the same answer.
\<close>

theorem IsLeader_after_latest_store:
  "(StoreStarted \<notin> set post \<and> StoreStopped \<notin> set post \<longrightarrow>
      IsLeader_after (pre @ StoreStarted # post) st = Inr True \<and>
      IsLeader_after (pre @ StoreStopped # post) st = Inr False) \<and>
   run_stmts body_OnStartedLeading st = OnStartedLeading ctx st \<and>
   run_stmts body_OnStoppedLeading st = OnStoppedLeading st \<and>
   (\<exists>st'. exec_all (cs @ [StartedLeading ctx]) st = Inr st' \<and> fst (IsLeader st') \<and>
       (\<forall>rs. set rs \<subseteq> {CallName, CallNamespace, CallID, CallIsLeader} \<longrightarrow>
          (\<exists>st''. exec_all rs st' = Inr st'' \<and> fst (IsLeader st'')))) \<and>
   (\<exists>st'. exec_all (cs @ [StoppedLeading]) st = Inr st' \<and> \<not> fst (IsLeader st') \<and>
       (\<forall>rs. set rs \<subseteq> {CallName, CallNamespace, CallID, CallIsLeader} \<longrightarrow>
          (\<exists>st''. exec_all rs st' = Inr st'' \<and> \<not> fst (IsLeader st''))))"
  using IsLeader_after_store [of post pre st] handlers_are_their_statements(1) [of st ctx]
    handlers_are_their_statements(2) [of st] IsLeader_after_serial_callbacks [of cs ctx st]
  by blast

theorem IsLeader_after_latest_store_witness:
  "StoreStarted \<notin> set [GoStopWork, LogStarted, GoStartWork] \<and>
   StoreStopped \<notin> set [GoStopWork, LogStarted, GoStartWork] \<and>
   IsLeader_after ([StoreStopped, LogStopped] @ StoreStarted # [GoStopWork, LogStarted, GoStartWork])
     (init example_le) = Inr True \<and>
   IsLeader_after ([StoreStarted, LogStarted] @ StoreStopped # [GoStartWork, LogStopped, GoStopWork])
     (init example_le) = Inr False \<and>
   (\<exists>st'. exec_all ([NewLeader ''node-2_77aa''] @ [StartedLeading ()]) (init example_le) = Inr st' \<and>
      fst (IsLeader st') \<and>
      (\<exists>st''. exec_all [CallIsLeader, CallID :: unit call] st' = Inr st'' \<and> fst (IsLeader st'')))"
proof -
  have n: "StoreStarted \<notin> set [GoStopWork, LogStarted, GoStartWork]"
    "StoreStopped \<notin> set [GoStopWork, LogStarted, GoStartWork]"
    "StoreStarted \<notin> set [GoStartWork, LogStopped, GoStopWork]"
    "StoreStopped \<notin> set [GoStartWork, LogStopped, GoStopWork]"
    by simp_all
  note t1 = IsLeader_after_latest_store
    [of "[GoStopWork, LogStarted, GoStartWork]" "[StoreStopped, LogStopped]" "init example_le"
      "()" "[NewLeader ''node-2_77aa'']"]
  note t2 = IsLeader_after_latest_store
    [of "[GoStartWork, LogStopped, GoStopWork]" "[StoreStarted, LogStarted]" "init example_le"
      "()" "[]"]
  have a: "IsLeader_after ([StoreStopped, LogStopped] @ StoreStarted # [GoStopWork, LogStarted, GoStartWork])
     (init example_le) = Inr True"
    using t1 [THEN conjunct1] n by blast
  have b: "IsLeader_after ([StoreStarted, LogStarted] @ StoreStopped # [GoStartWork, LogStopped, GoStopWork])
     (init example_le) = Inr False"
    using t2 [THEN conjunct1] n by blast
  from t1 obtain st' where 1: "exec_all ([NewLeader ''node-2_77aa''] @ [StartedLeading ()]) (init example_le) = Inr st'"
    and 2: "fst (IsLeader st')"
    and 3: "\<forall>rs. set rs \<subseteq> {CallName, CallNamespace, CallID, CallIsLeader :: unit call} \<longrightarrow>
          (\<exists>st''. exec_all rs st' = Inr st'' \<and> fst (IsLeader st''))"
    by blast
  have "set [CallIsLeader, CallID] \<subseteq> {CallName, CallNamespace, CallID, CallIsLeader :: unit call}"
    by simp
  with 3 have "\<exists>st''. exec_all [CallIsLeader, CallID :: unit call] st' = Inr st'' \<and> fst (IsLeader st'')"
    by blast
  with 1 2 a b n show ?thesis by blast
qed

text \<open>
  The claim speaks of every interleaving. When the two handlers overlap so that
  \<open>OnStoppedLeading\<close> stores first and completes last, \<open>IsLeader()\<close> is true after
  \<open>OnStoppedLeading\<close> has completed.
\<close>

theorem IsLeader_overlap_counterexample:
  "overlapping_schedule \<in> shuffles body_OnStartedLeading body_OnStoppedLeading \<and>
   last overlapping_schedule = last body_OnStoppedLeading \<and>
   IsLeader_after overlapping_schedule (init example_le) = Inr True"
  by (simp add: overlapping_schedule_def body_OnStartedLeading_def body_OnStoppedLeading_def
      IsLeader_after_def init_def example_le_def StoreInt64_isLeader_def go_stmt_def
      IsLeader_def LoadInt64_isLeader_def image_iff)

text \<open>
  Claim C4. On an instance built by \<open>New\<close>, \<open>ID()\<close> is the host name, then \<open>_\<close>, then the
  value \<open>uuid.NewUUID()\<close> gave during that call, and it is still that string after any
  sequence of accessor calls and callbacks. (The struct field \<open>id\<close> is never assigned; the
  identity lives in the lock handle.)
\<close>

theorem identity_is_host_and_suffix:
  assumes "New e nm ns kc sw pw lg = Inr (Inr inst)" and "le st = inst"
  shows "\<exists>host. Hostname e = Inr host \<and> fst (ID st) = host @ ''_'' @ NewUUID e \<and>
           (\<forall>cs :: 'x call list. \<exists>st'. exec_all cs st = Inr st' \<and>
              fst (ID st') = host @ ''_'' @ NewUUID e)"
proof -
  from New_Inr_D [OF assms(1)] obtain host where h: "Hostname e = Inr host"
    and i: "lock_Identity (lock inst) = host @ ''_'' @ NewUUID e"
    by (auto simp: lock_Identity_def)
  have "\<exists>st'. exec_all cs st = Inr st' \<and> fst (ID st') = host @ ''_'' @ NewUUID e"
    for cs :: "'x call list"
  proof -
    obtain st' where r: "exec_all cs st = Inr st'"
      and f: "(le st')\<lparr>isLeader := 0\<rparr> = (le st)\<lparr>isLeader := 0\<rparr>"
      using exec_all_frame [of cs st] by blast
    have "lock (le st') = lock (le st)" using frame_fields(7) [OF f] .
    then show ?thesis using r i assms(2) by (simp add: ID_def)
  qed
  then show ?thesis using h i assms(2) by (auto simp: ID_def)
qed

theorem identity_is_host_and_suffix_witness:
  "Hostname env_ok = Inr ''node-1'' \<and> NewUUID env_ok = ''0f3c'' \<and>
   fst (ID (init example_le)) = ''node-1_0f3c'' \<and>
   (\<exists>st'. exec_all [StartedLeading (), NewLeader ''node-2_77aa'', StoppedLeading] (init example_le)
             = Inr st' \<and> fst (ID st') = ''node-1_0f3c'')"
proof -
  have l: "le (init example_le) = example_le" by (simp add: init_def)
  from identity_is_host_and_suffix [OF New_example l]
  obtain host where h: "Hostname env_ok = Inr host"
    and i: "fst (ID (init example_le)) = host @ ''_'' @ NewUUID env_ok"
    and a: "\<forall>cs :: unit call list. \<exists>st'. exec_all cs (init example_le) = Inr st' \<and>
              fst (ID st') = host @ ''_'' @ NewUUID env_ok"
    by blast
  have e: "host = ''node-1''" "NewUUID env_ok = ''0f3c''" using h by (simp_all add: env_ok_def)
  from a obtain st' where
    "exec_all [StartedLeading (), NewLeader ''node-2_77aa'', StoppedLeading] (init example_le) = Inr st'"
    "fst (ID st') = host @ ''_'' @ NewUUID env_ok"
    by blast
  then show ?thesis using h i e by auto
qed

text \<open>
  Claim C5. \<open>Run\<close> hands \<open>RunOrDie\<close> the lock of the instance, \<open>ReleaseOnCancel = true\<close>, a
  lease duration of 15 seconds, a renew deadline of 10 seconds and a retry period of
  2 seconds (as signed 64-bit nanosecond counts, none of which overflows), and
  retry period < renew deadline < lease duration.
\<close>

theorem Run_fixed_configuration:
  fixes RunOrDie :: "'x \<Rightarrow> ('x, 'c, 'p) LeaderElectionConfig \<Rightarrow> ('c, 'p) state \<Rightarrow> 'r"
  shows
  "Run RunOrDie ctx st = RunOrDie ctx (Run_config st) st \<and>
   Lock (Run_config st :: ('x, 'c, 'p) LeaderElectionConfig) = lock (le st) \<and>
   ReleaseOnCancel (Run_config st :: ('x, 'c, 'p) LeaderElectionConfig) \<and>
   sint Second = 1000000000 \<and>
   LeaseDuration (Run_config st :: ('x, 'c, 'p) LeaderElectionConfig) = 15 * Second \<and>
   RenewDeadline (Run_config st :: ('x, 'c, 'p) LeaderElectionConfig) = 10 * Second \<and>
   RetryPeriod (Run_config st :: ('x, 'c, 'p) LeaderElectionConfig) = 2 * Second \<and>
   sint (LeaseDuration (Run_config st :: ('x, 'c, 'p) LeaderElectionConfig)) = 15000000000 \<and>
   sint (RenewDeadline (Run_config st :: ('x, 'c, 'p) LeaderElectionConfig)) = 10000000000 \<and>
   sint (RetryPeriod (Run_config st :: ('x, 'c, 'p) LeaderElectionConfig)) = 2000000000 \<and>
   RetryPeriod (Run_config st :: ('x, 'c, 'p) LeaderElectionConfig)
     <s RenewDeadline (Run_config st :: ('x, 'c, 'p) LeaderElectionConfig) \<and>
   RenewDeadline (Run_config st :: ('x, 'c, 'p) LeaderElectionConfig)
     <s LeaseDuration (Run_config st :: ('x, 'c, 'p) LeaderElectionConfig)"
  by (simp add: Run_def Run_config_def Second_def word_sless_alt)

text \<open>
  Claim C6. \<open>OnNewLeader\<close> called with the instance's own identity returns with the state
  unchanged, so nothing is logged; called with any other identity it logs one entry that
  carries both identities. Whenever it logs, the identity differs from the local one.
\<close>

theorem OnNewLeader_silent_for_own_identity:
  "(i = fst (ID st) \<longrightarrow> OnNewLeader i st = Inr st) \<and>
   (i \<noteq> fst (ID st) \<longrightarrow>
      OnNewLeader i st =
        Inr (st\<lparr>sink := sink st @
               [(log (le st) @ [(''current id'', fst (ID st)), (''leader'', i)],
                 ''another instance has been elected as leader'')]\<rparr>)) \<and>
   (\<forall>st'. OnNewLeader i st = Inr st' \<and> sink st' \<noteq> sink st \<longrightarrow> i \<noteq> fst (ID st))"
  by (auto simp: OnNewLeader_Inr ID_def)

theorem OnNewLeader_silent_for_own_identity_witness:
  "''node-1_0f3c'' = fst (ID (init example_le)) \<and>
   OnNewLeader ''node-1_0f3c'' (init example_le) = Inr (init example_le) \<and>
   ''node-2_77aa'' \<noteq> fst (ID (init example_le)) \<and>
   OnNewLeader ''node-2_77aa'' (init example_le) =
     Inr ((init example_le)\<lparr>sink :=
            [([(''current id'', ''node-1_0f3c''), (''leader'', ''node-2_77aa'')],
              ''another instance has been elected as leader'')]\<rparr>)"
proof -
  have i: "fst (ID (init example_le)) = ''node-1_0f3c''"
    by (simp add: ID_def init_def example_le_def lock_Identity_def)
  have s: "sink (init example_le) = []" "log (le (init example_le)) = []"
    by (simp_all add: init_def example_le_def)
  show ?thesis
    using OnNewLeader_silent_for_own_identity [of "''node-1_0f3c''" "init example_le"]
      OnNewLeader_silent_for_own_identity [of "''node-2_77aa''" "init example_le"]
    by (simp add: i s)
qed

text \<open>
  Claim C7. With a nil \<open>startWork\<close>, \<open>OnStartedLeading\<close> stores 1 into the flag, logs
  "started leading" with the identity, starts no goroutine and returns; likewise
  \<open>OnStoppedLeading\<close> with a nil \<open>stopWork\<close>, storing 0. Neither handler panics, whatever
  the two procedures are.
\<close>

theorem nil_work_is_skipped:
  "(startWork (le st) = None \<longrightarrow>
      OnStartedLeading ctx st =
        Inr (st\<lparr>le := (le st)\<lparr>isLeader := 1\<rparr>,
                sink := sink st @ [(log (le st) @ [(''id'', fst (ID st))], ''started leading'')]\<rparr>)) \<and>
   (stopWork (le st) = None \<longrightarrow>
      OnStoppedLeading st =
        Inr (st\<lparr>le := (le st)\<lparr>isLeader := 0\<rparr>,
                sink := sink st @ [(log (le st) @ [(''id'', fst (ID st))], ''stopped leading'')]\<rparr>)) \<and>
   (\<forall>p. OnStartedLeading ctx st \<noteq> Inl p) \<and> (\<forall>p. OnStoppedLeading st \<noteq> Inl p)"
  by (simp add: OnStartedLeading_Inr OnStoppedLeading_Inr ID_def)

theorem nil_work_is_skipped_witness:
  "stopWork (le (init example_le)) = None \<and>
   OnStoppedLeading (init example_le) =
     Inr ((init example_le)\<lparr>sink := [([(''id'', ''node-1_0f3c'')], ''stopped leading'')]\<rparr>) \<and>
   startWork (le ((init example_le)\<lparr>le := example_le\<lparr>startWork := None\<rparr>\<rparr>)) = None \<and>
   OnStartedLeading () ((init example_le)\<lparr>le := example_le\<lparr>startWork := None\<rparr>\<rparr>) =
     Inr ((init example_le)\<lparr>le := example_le\<lparr>startWork := None, isLeader := 1\<rparr>,
            sink := [([(''id'', ''node-1_0f3c'')], ''started leading'')]\<rparr>)"
  using nil_work_is_skipped [of "init example_le" "()"]
    nil_work_is_skipped [of "(init example_le)\<lparr>le := example_le\<lparr>startWork := None\<rparr>\<rparr>" "()"]
  by (simp add: init_def example_le_def ID_def lock_Identity_def)

text \<open>
  Claim C8. With a non-nil \<open>startWork\<close>, \<open>OnStartedLeading\<close> returns with that procedure
  added to the started goroutines, not run by the handler itself; likewise
  \<open>OnStoppedLeading\<close> with \<open>stopWork\<close>.
\<close>

theorem work_is_dispatched_not_awaited:
  "(startWork (le st) = Some p \<longrightarrow>
      (\<exists>st'. OnStartedLeading ctx st = Inr st' \<and> goroutines st' = goroutines st @ [p])) \<and>
   (stopWork (le st) = Some q \<longrightarrow>
      (\<exists>st'. OnStoppedLeading st = Inr st' \<and> goroutines st' = goroutines st @ [q]))"
  by (simp add: OnStartedLeading_Inr OnStoppedLeading_Inr)

theorem work_is_dispatched_not_awaited_witness:
  "startWork (le (init example_le)) = Some 1 \<and>
   (\<exists>st'. OnStartedLeading () (init example_le) = Inr st' \<and> goroutines st' = [1]) \<and>
   stopWork (le ((init example_le)\<lparr>le := example_le\<lparr>stopWork := Some 2\<rparr>\<rparr>)) = Some 2 \<and>
   (\<exists>st'. OnStoppedLeading ((init example_le)\<lparr>le := example_le\<lparr>stopWork := Some 2\<rparr>\<rparr>) = Inr st'
      \<and> goroutines st' = [2])"
  using work_is_dispatched_not_awaited [of "init example_le" 1 "()"]
    work_is_dispatched_not_awaited
      [of "(init example_le)\<lparr>le := example_le\<lparr>stopWork := Some 2\<rparr>\<rparr>" 1 "()" 2]
  by (simp add: init_def example_le_def)

text \<open>
  Claim C9. On an instance built by \<open>New\<close>, \<open>IsLeader()\<close> is false, and stays false
  through every sequence of calls in which \<open>OnStartedLeading\<close> does not occur. After any
  sequence of calls the flag is 0 or 1. A call that changes the flag is an invocation of
  \<open>OnStartedLeading\<close> or of \<open>OnStoppedLeading\<close>.
\<close>

theorem flag_starts_standby_and_is_binary:
  fixes inst :: "('c, 'p) leaderElection"
  assumes "New e nm ns kc sw pw lg = Inr (Inr inst)" and "le st = inst"
  shows "\<not> fst (IsLeader st) \<and>
    (\<forall>cs :: 'x call list. (\<forall>ctx. StartedLeading ctx \<notin> set cs) \<longrightarrow>
       (\<exists>st'. exec_all cs st = Inr st' \<and> \<not> fst (IsLeader st'))) \<and>
    (\<forall>cs :: 'x call list. \<exists>st'. exec_all cs st = Inr st' \<and>
       (isLeader (le st') = 0 \<or> isLeader (le st') = 1)) \<and>
    (\<forall>(c :: 'x call) (s :: ('c, 'p) state) s'. exec c s = Inr s' \<and> isLeader (le s') \<noteq> isLeader (le s) \<longrightarrow>
       (\<exists>ctx. c = StartedLeading ctx) \<or> c = StoppedLeading)"
proof -
  have z: "isLeader (le st) = 0" using New_Inr_D [OF assms(1)] assms(2) by auto
  have 1: "\<not> fst (IsLeader st)" using z by (simp add: IsLeader_def LoadInt64_isLeader_def)
  have 2: "\<exists>st'. exec_all cs st = Inr st' \<and> \<not> fst (IsLeader st')"
    if "\<forall>ctx. StartedLeading ctx \<notin> set cs" for cs :: "'x call list"
    using exec_all_standby [OF that z] by (auto simp: IsLeader_def LoadInt64_isLeader_def)
  have 3: "\<exists>st'. exec_all cs st = Inr st' \<and> (isLeader (le st') = 0 \<or> isLeader (le st') = 1)"
    for cs :: "'x call list"
    using exec_all_frame [of cs st] z by auto
  have 4: "(\<exists>ctx. c = StartedLeading ctx) \<or> c = StoppedLeading"
    if "exec c s = Inr s' \<and> isLeader (le s') \<noteq> isLeader (le s)" for c :: "'x call" and s s' :: "('c, 'p) state"
    using exec_flag_writer [of c s s'] that by blast
  show ?thesis using 1 2 3 4 by blast
qed

theorem flag_starts_standby_and_is_binary_witness:
  "\<not> fst (IsLeader (init example_le)) \<and>
   (\<exists>st'. exec_all [NewLeader ''node-2_77aa'', CallIsLeader, StoppedLeading :: unit call]
             (init example_le) = Inr st' \<and> \<not> fst (IsLeader st')) \<and>
   (\<exists>st'. exec_all [StartedLeading ()] (init example_le) = Inr st' \<and>
      (isLeader (le st') = 0 \<or> isLeader (le st') = 1))"
proof -
  have l: "le (init example_le) = example_le" by (simp add: init_def)
  have n: "\<forall>ctx. StartedLeading ctx \<notin> set [NewLeader ''node-2_77aa'', CallIsLeader, StoppedLeading :: unit call]"
    by simp
  show ?thesis
    using flag_starts_standby_and_is_binary [OF New_example l, where ?'x = unit] n by blast
qed

text \<open>
  Claim C10. \<open>Name()\<close>, \<open>Namespace()\<close>, \<open>ID()\<close> and \<open>IsLeader()\<close> leave the state as it
  was. On an instance built by \<open>New\<close>, after any sequence of calls (the empty one is the
  instance before \<open>Run\<close>), \<open>Name()\<close> and \<open>Namespace()\<close> are the strings passed to \<open>New\<close>
  and \<open>ID()\<close> is the identity the lock handle was built with.
\<close>

theorem accessors_read_only_and_stable:
  "snd (Name st) = st \<and> snd (Namespace st) = st \<and> snd (ID st) = st \<and> snd (IsLeader st) = st \<and>
   (New e nm ns kc sw pw lg = Inr (Inr inst) \<and> le st = inst \<longrightarrow>
      (\<forall>cs :: 'x call list. \<exists>st'. exec_all cs st = Inr st' \<and> fst (Name st') = nm \<and>
         fst (Namespace st') = ns \<and> fst (ID st') = lock_Identity (lock inst)))"
proof -
  have "\<exists>st'. exec_all cs st = Inr st' \<and> fst (Name st') = nm \<and> fst (Namespace st') = ns \<and>
         fst (ID st') = lock_Identity (lock inst)"
    if n: "New e nm ns kc sw pw lg = Inr (Inr inst)" and l: "le st = inst"
    for cs :: "'x call list"
  proof -
    obtain st' where r: "exec_all cs st = Inr st'"
      and f: "(le st')\<lparr>isLeader := 0\<rparr> = (le st)\<lparr>isLeader := 0\<rparr>"
      using exec_all_frame [of cs st] by blast
    have "name inst = nm" "namespace inst = ns" using New_Inr_D [OF n] by auto
    then show ?thesis using r l frame_fields(1,2,7) [OF f]
      by (simp add: Name_def Namespace_def ID_def)
  qed
  then show ?thesis by (auto simp: Name_def Namespace_def ID_def IsLeader_def)
qed

theorem accessors_read_only_and_stable_witness:
  "fst (Name (init example_le)) = ''kyverno'' \<and> fst (Namespace (init example_le)) = ''kyverno-ns'' \<and>
   fst (ID (init example_le)) = ''node-1_0f3c'' \<and>
   (\<exists>st'. exec_all [CallID, StartedLeading (), CallName, StoppedLeading] (init example_le) = Inr st' \<and>
      fst (Name st') = ''kyverno'' \<and> fst (Namespace st') = ''kyverno-ns'' \<and>
      fst (ID st') = ''node-1_0f3c'')"
proof -
  have l: "le (init example_le) = example_le" by (simp add: init_def)
  have i: "lock_Identity (lock example_le) = ''node-1_0f3c''"
    by (simp add: example_le_def lock_Identity_def)
  have a: "\<exists>st'. exec_all cs (init example_le) = Inr st' \<and> fst (Name st') = ''kyverno'' \<and>
      fst (Namespace st') = ''kyverno-ns'' \<and> fst (ID st') = ''node-1_0f3c''" for cs :: "unit call list"
    using accessors_read_only_and_stable
      [of "init example_le" env_ok "''kyverno''" "''kyverno-ns''" "Some 0" "Some 1" None "[]"
        example_le]
      New_example l i by auto
  from a [of "[]"] have "fst (Name (init example_le)) = ''kyverno'' \<and>
      fst (Namespace (init example_le)) = ''kyverno-ns'' \<and> fst (ID (init example_le)) = ''node-1_0f3c''"
    by simp
  then show ?thesis using a [of "[CallID, StartedLeading (), CallName, StoppedLeading]"] by blast
qed

subsection \<open>The engine\<close>

lemma leaseDuration_of_eq: "leaseDuration_of n = 15000000000"
  by (simp add: leaseDuration_of_def Run_config_def Second_def)

lemma exec_callback_effect:
  "\<exists>st'. exec (StartedLeading ctx) st = Inr st' \<and> fst (IsLeader st') \<and>
      fst (ID st') = fst (ID st)"
  "\<exists>st'. exec StoppedLeading st = Inr st' \<and> \<not> fst (IsLeader st') \<and>
      fst (ID st') = fst (ID st)"
  "\<exists>st'. exec (NewLeader i) st = Inr st' \<and> fst (IsLeader st') = fst (IsLeader st) \<and>
      fst (ID st') = fst (ID st)"
  by (simp_all add: Run_config_def OnStartedLeading_Inr OnStoppedLeading_Inr OnNewLeader_Inr
      IsLeader_def LoadInt64_isLeader_def ID_def)

lemma fire_StartedLeading:
  "\<exists>st'. fire (StartedLeading ctx) n = Inr (n\<lparr>facade := st'\<rparr>) \<and> fst (IsLeader st') \<and>
      fst (ID st') = fst (ID (facade n))"
  using exec_callback_effect(1) [of ctx "facade n"] by (auto simp: fire_def Run_config_def)

lemma fire_StoppedLeading:
  "\<exists>st'. fire StoppedLeading n = Inr (n\<lparr>facade := st'\<rparr>) \<and> \<not> fst (IsLeader st') \<and>
      fst (ID st') = fst (ID (facade n))"
  using exec_callback_effect(2) [of "facade n"] by (auto simp: fire_def Run_config_def)

lemma fire_NewLeader:
  "\<exists>st'. fire (NewLeader i) n = Inr (n\<lparr>facade := st'\<rparr>) \<and>
      fst (IsLeader st') = fst (IsLeader (facade n)) \<and> fst (ID st') = fst (ID (facade n))"
  using exec_callback_effect(3) [of i "facade n"] by (auto simp: fire_def Run_config_def)

lemma node_ok_others:
  assumes "node_ok svc t n" and "change_ok svc svc' a t" and "ident n \<noteq> a"
  shows "node_ok svc' t n"
  using assms
  by (cases svc)
     (auto simp: node_ok_def change_ok_def leaseDuration_of_eq)

lemma node_ok_later:
  assumes "node_ok svc t n" and "t \<le> t'"
  shows "node_ok svc t' n"
  using assms by (auto simp: node_ok_def)

lemma ident_facade [simp]: "ident (n\<lparr>facade := st'\<rparr>) = fst (ID st')"
  by (simp add: ident_def)

lemma node_act_Read:
  assumes "node_ok svc t n"
  shows "\<exists>n'. node_act (Read :: 'x action) t svc n = Inr (n', svc) \<and> node_ok svc t n' \<and>
           ident n' = ident n"
proof -
  obtain st' where f:
    "fire (NewLeader (case svc of Some r \<Rightarrow> holderIdentity r | None \<Rightarrow> []) :: 'x call) n
        = Inr (n\<lparr>facade := st'\<rparr>)"
    "fst (IsLeader st') = fst (IsLeader (facade n))" "fst (ID st') = fst (ID (facade n))"
    using fire_NewLeader by blast
  show ?thesis
    using assms f
    by (cases svc)
       (auto simp: node_ok_def ident_def leaseDuration_of_eq expired_def)
qed

lemma createOrUpdate_cases:
  "createOrUpdate r e svc = (Conflict, svc) \<or>
   (e = None \<and> svc = None \<and> createOrUpdate r e svc = (Ok, Some (r\<lparr>optimisticToken := 0\<rparr>))) \<or>
   (\<exists>cur. e = Some (optimisticToken cur) \<and> svc = Some cur \<and>
      createOrUpdate r e svc = (Ok, Some (r\<lparr>optimisticToken := Suc (optimisticToken cur)\<rparr>)))"
  by (auto simp: createOrUpdate_def split: option.splits)

lemma node_act_TryAcquire:
  assumes ok: "node_ok svc t n"
  shows "\<exists>n' svc'. node_act (TryAcquire ctx) t svc n = Inr (n', svc') \<and> node_ok svc' t n' \<and>
           ident n' = ident n \<and> change_ok svc svc' (ident n) t"
proof -
  from fire_StartedLeading [of ctx n]
  obtain st' where f: "fire (StartedLeading ctx) n = Inr (n\<lparr>facade := st'\<rparr>)"
    and l: "fst (IsLeader st')" and i: "fst (ID st') = fst (ID (facade n))"
    by (elim exE conjE)
  define new where "new = \<lparr>holderIdentity = ident n,
                 leaseDurationSeconds = leaseDuration_of n div nat (sint Second),
                 renewTimestamp = t,
                 leaderTransitions =
                   (case observed n of None \<Rightarrow> 0 | Some r \<Rightarrow> Suc (leaderTransitions r)),
                 optimisticToken = 0\<rparr>"
  define e where "e = map_option optimisticToken (observed n)"
  define G where "G \<longleftrightarrow> phase n = Standby \<and>
         (case observed n of
            None \<Rightarrow> True
          | Some r \<Rightarrow> holderIdentity r = [] \<or> holderIdentity r = ident n \<or> expired n t r)"
  define won where "won s' = (n\<lparr>facade := st'\<rparr>)\<lparr>phase := Leading, observed := s', lastRenew := t\<rparr>"
    for s' :: "LockRecord option"
  have unfold: "node_act (TryAcquire ctx) t svc n =
      (if G then (case createOrUpdate new e svc of
                    (Ok, svc') \<Rightarrow> Inr (won svc', svc')
                  | (Conflict, svc') \<Rightarrow> Inr (n, svc))
       else Inr (n, svc))"
    by (simp only: node_act.simps f sum.case G_def new_def e_def won_def)
  have same: "node_ok svc t n \<and> ident n = ident n \<and> change_ok svc svc (ident n) t"
    using ok by (simp add: change_ok_def)
  have nh: "holderIdentity new = ident n" "renewTimestamp new = t"
    by (simp_all add: new_def)
  have won_ok: "node_ok (Some r) t (won (Some r))" if "holderIdentity r = ident n"
    "renewTimestamp r = t" for r
    using ok l i that by (simp add: node_ok_def won_def ident_def)
  have won_id: "ident (won s') = ident n" for s'
    using i by (simp add: won_def ident_def)
  consider (conflict) "createOrUpdate new e svc = (Conflict, svc)"
    | (create) "e = None" "svc = None"
        "createOrUpdate new e svc = (Ok, Some (new\<lparr>optimisticToken := 0\<rparr>))"
    | (update) cur where "e = Some (optimisticToken cur)" "svc = Some cur"
        "createOrUpdate new e svc = (Ok, Some (new\<lparr>optimisticToken := Suc (optimisticToken cur)\<rparr>))"
    using createOrUpdate_cases [of new e svc] by blast
  then show ?thesis
  proof cases
    case conflict
    have "node_act (TryAcquire ctx) t svc n = Inr (n, svc)"
      unfolding unfold conflict by simp
    then show ?thesis using same by blast
  next
    case create
    show ?thesis
    proof (cases G)
      case False
      then have "node_act (TryAcquire ctx) t svc n = Inr (n, svc)" unfolding unfold by simp
      then show ?thesis using same by blast
    next
      case True
      let ?r = "new\<lparr>optimisticToken := 0\<rparr>"
      have 1: "node_act (TryAcquire ctx) t svc n = Inr (won (Some ?r), Some ?r)"
        unfolding unfold create(3) using True by simp
      have 2: "node_ok (Some ?r) t (won (Some ?r))" by (rule won_ok) (simp_all add: nh)
      have 3: "change_ok svc (Some ?r) (ident n) t" by (simp add: change_ok_def create(2))
      show ?thesis using 1 2 3 won_id by blast
    qed
  next
    case update
    show ?thesis
    proof (cases G)
      case False
      then have "node_act (TryAcquire ctx) t svc n = Inr (n, svc)" unfolding unfold by simp
      then show ?thesis using same by blast
    next
      case True
      let ?r = "new\<lparr>optimisticToken := Suc (optimisticToken cur)\<rparr>"
      obtain r where r: "observed n = Some r" "optimisticToken r = optimisticToken cur"
        using update(1) by (auto simp: e_def)
      have rc: "r = cur" using ok update(2) r by (auto simp: node_ok_def)
      have g: "holderIdentity cur = [] \<or> holderIdentity cur = ident n \<or>
          renewTimestamp cur + 15000000000 < t"
        using True r(1) rc by (simp add: G_def expired_def leaseDuration_of_eq)
      have 1: "node_act (TryAcquire ctx) t svc n = Inr (won (Some ?r), Some ?r)"
        unfolding unfold update(3) using True by simp
      have 2: "node_ok (Some ?r) t (won (Some ?r))" by (rule won_ok) (simp_all add: nh)
      have 3: "change_ok svc (Some ?r) (ident n) t"
        using g by (simp add: change_ok_def update(2))
      show ?thesis using 1 2 3 won_id by blast
    qed
  qed
qed

lemma node_act_Renew:
  assumes ok: "node_ok svc t n"
  shows "\<exists>n' svc'. node_act (Renew :: 'x action) t svc n = Inr (n', svc') \<and> node_ok svc' t n' \<and>
           ident n' = ident n \<and> change_ok svc svc' (ident n) t"
proof (cases "observed n")
  case None
  then show ?thesis using ok by (auto simp: change_ok_def)
next
  case (Some r)
  let ?new = "r\<lparr>renewTimestamp := t\<rparr>"
  let ?e = "Some (optimisticToken r)"
  consider (conflict) "createOrUpdate ?new ?e svc = (Conflict, svc)"
    | (update) cur where "?e = Some (optimisticToken cur)" "svc = Some cur"
        "createOrUpdate ?new ?e svc = (Ok, Some (?new\<lparr>optimisticToken := Suc (optimisticToken cur)\<rparr>))"
    using createOrUpdate_cases [of ?new ?e svc] by blast
  then show ?thesis
  proof cases
    case conflict
    then show ?thesis using ok Some by (auto simp: change_ok_def)
  next
    case update
    then have rc: "r = cur" using ok Some by (auto simp: node_ok_def)
    show ?thesis
      using ok Some update rc
      by (auto simp: change_ok_def node_ok_def ident_def)
  qed
qed

lemma node_act_Concede:
  assumes ok: "node_ok svc t n"
  shows "\<exists>n'. node_act (Concede :: 'x action) t svc n = Inr (n', svc) \<and> node_ok svc t n' \<and>
           ident n' = ident n"
proof -
  obtain st' where f: "fire (StoppedLeading :: 'x call) n = Inr (n\<lparr>facade := st'\<rparr>)"
    "\<not> fst (IsLeader st')" "fst (ID st') = fst (ID (facade n))"
    using fire_StoppedLeading by blast
  show ?thesis using ok f by (auto simp: node_ok_def ident_def)
qed

lemma node_act_CancelStop:
  assumes ok: "node_ok svc t n"
  shows "\<exists>n'. node_act (CancelStop :: 'x action) t svc n = Inr (n', svc) \<and> node_ok svc t n' \<and>
           ident n' = ident n"
proof -
  obtain st' where f: "fire (StoppedLeading :: 'x call) n = Inr (n\<lparr>facade := st'\<rparr>)"
    "\<not> fst (IsLeader st')" "fst (ID st') = fst (ID (facade n))"
    using fire_StoppedLeading by blast
  show ?thesis using ok f by (auto simp: node_ok_def ident_def)
qed

lemma node_act_CancelRelease:
  assumes ok: "node_ok svc t n"
  shows "\<exists>n' svc'. node_act (CancelRelease :: 'x action) t svc n = Inr (n', svc') \<and>
           node_ok svc' t n' \<and> ident n' = ident n \<and> change_ok svc svc' (ident n) t"
proof (cases "observed n")
  case None
  then show ?thesis using ok by (auto simp: change_ok_def node_ok_def ident_def)
next
  case (Some r)
  let ?new = "r\<lparr>holderIdentity := []\<rparr>"
  let ?e = "Some (optimisticToken r)"
  consider (conflict) "createOrUpdate ?new ?e svc = (Conflict, svc)"
    | (update) cur where "?e = Some (optimisticToken cur)" "svc = Some cur"
        "createOrUpdate ?new ?e svc = (Ok, Some (?new\<lparr>optimisticToken := Suc (optimisticToken cur)\<rparr>))"
    using createOrUpdate_cases [of ?new ?e svc] by blast
  then show ?thesis
  proof cases
    case conflict
    then show ?thesis using ok Some by (auto simp: change_ok_def node_ok_def ident_def)
  next
    case update
    then have rc: "r = cur" using ok Some by (auto simp: node_ok_def)
    show ?thesis
      using ok Some update rc
      by (auto simp: change_ok_def node_ok_def ident_def)
  qed
qed

lemma change_ok_refl: "change_ok svc svc a t"
  by (simp add: change_ok_def)

lemma node_act_ok:
  fixes a :: "'x action"
  assumes "node_ok svc t n"
  shows "\<exists>n' svc'. node_act a t svc n = Inr (n', svc') \<and> node_ok svc' t n' \<and>
           ident n' = ident n \<and> change_ok svc svc' (ident n) t"
proof (cases a)
  case Read
  from node_act_Read [OF assms, where ?'x = 'x] obtain n' where
    1: "node_act (Read :: 'x action) t svc n = Inr (n', svc)" and 2: "node_ok svc t n'"
    and 3: "ident n' = ident n"
    by (elim exE conjE)
  show ?thesis unfolding Read
    by (intro exI [of _ n'] exI [of _ svc] conjI 1 2 3 change_ok_refl)
next
  case (TryAcquire ctx)
  show ?thesis unfolding TryAcquire by (rule node_act_TryAcquire [OF assms])
next
  case Renew
  show ?thesis unfolding Renew by (rule node_act_Renew [OF assms])
next
  case Concede
  from node_act_Concede [OF assms, where ?'x = 'x] obtain n' where
    1: "node_act (Concede :: 'x action) t svc n = Inr (n', svc)" and 2: "node_ok svc t n'"
    and 3: "ident n' = ident n"
    by (elim exE conjE)
  show ?thesis unfolding Concede
    by (intro exI [of _ n'] exI [of _ svc] conjI 1 2 3 change_ok_refl)
next
  case CancelRelease
  show ?thesis unfolding CancelRelease by (rule node_act_CancelRelease [OF assms])
next
  case CancelStop
  from node_act_CancelStop [OF assms, where ?'x = 'x] obtain n' where
    1: "node_act (CancelStop :: 'x action) t svc n = Inr (n', svc)" and 2: "node_ok svc t n'"
    and 3: "ident n' = ident n"
    by (elim exE conjE)
  show ?thesis unfolding CancelStop
    by (intro exI [of _ n'] exI [of _ svc] conjI 1 2 3 change_ok_refl)
qed

lemma engine_step_ok:
  fixes e :: "'x event"
  assumes ok: "cluster_ok c"
  shows "\<exists>c'. engine_step e c = Inr c' \<and> cluster_ok c'"
proof (cases e)
  case (Tick d)
  have "cluster_ok (c\<lparr>now := now c + d\<rparr>)"
    using ok node_ok_later [of "service c" "now c" _ "now c + d"]
    by (auto simp: cluster_ok_def)
  then show ?thesis unfolding Tick by simp
next
  case (Act i a)
  show ?thesis
  proof (cases "i < length (nodes c)")
    case False
    then show ?thesis unfolding Act using ok by simp
  next
    case True
    let ?xs = "nodes c"
    let ?n = "?xs ! i"
    have n: "node_ok (service c) (now c) ?n" using ok True by (simp add: cluster_ok_def)
    from node_act_ok [OF n, of a] obtain n' svc' where
      1: "node_act a (now c) (service c) ?n = Inr (n', svc')"
      and 2: "node_ok svc' (now c) n'" and 3: "ident n' = ident ?n"
      and 4: "change_ok (service c) svc' (ident ?n) (now c)"
      by (elim exE conjE)
    let ?c' = "c\<lparr>nodes := ?xs[i := n'], service := svc'\<rparr>"
    have step: "engine_step (Act i a) c = Inr ?c'" using True 1 by simp
    have ids: "map ident (?xs[i := n']) = map ident ?xs"
      using True 3 by (simp add: map_update list_update_same_conv)
    have d: "distinct (map ident ?xs)" using ok by (simp add: cluster_ok_def)
    have "node_ok svc' (now c) m" if m: "m \<in> set (?xs[i := n'])" for m
    proof -
      from m obtain k where k: "k < length ?xs" "m = ?xs[i := n'] ! k"
        by (auto simp: in_set_conv_nth)
      show ?thesis
      proof (cases "k = i")
        case True
        then show ?thesis using k 2 by simp
      next
        case False
        then have mk: "m = ?xs ! k" using k by simp
        have "map ident ?xs ! k \<noteq> map ident ?xs ! i"
          using nth_eq_iff_index_eq [OF d, of k i] k(1) \<open>i < length ?xs\<close> False by simp
        then have ne: "ident m \<noteq> ident ?n" using mk k(1) \<open>i < length ?xs\<close> by simp
        have "node_ok (service c) (now c) m" using ok mk k(1) by (simp add: cluster_ok_def)
        then show ?thesis using 4 ne by (rule node_ok_others)
      qed
    qed
    then have "cluster_ok ?c'" using d ids by (simp add: cluster_ok_def)
    then show ?thesis unfolding Act using step by simp
  qed
qed

lemma run_engine_ok:
  fixes es :: "'x event list"
  assumes "cluster_ok c"
  shows "\<exists>c'. run_engine es c = Inr c' \<and> cluster_ok c'"
  using assms
proof (induction es arbitrary: c)
  case Nil
  then show ?case by simp
next
  case (Cons e es)
  from engine_step_ok [OF Cons.prems, of e] obtain c1 where
    1: "engine_step e c = Inr c1" and 2: "cluster_ok c1"
    by (elim exE conjE)
  from Cons.IH [OF 2] obtain c' where 3: "run_engine es c1 = Inr c'" and 4: "cluster_ok c'"
    by (elim exE conjE)
  have "run_engine (e # es) c = Inr c'" using 1 3 by simp
  then show ?case using 4 by simp
qed

lemma cluster_ok_exclusion:
  assumes ok: "cluster_ok c" and i: "i < length (nodes c)" and j: "j < length (nodes c)"
    and li: "live_leader c (nodes c ! i)" and lj: "live_leader c (nodes c ! j)"
  shows "i = j"
proof -
  have ni: "node_ok (service c) (now c) (nodes c ! i)"
    and nj: "node_ok (service c) (now c) (nodes c ! j)"
    using ok i j by (simp_all add: cluster_ok_def)
  have "\<exists>r. service c = Some r \<and> holderIdentity r = ident (nodes c ! i)"
    using ni li by (auto simp: node_ok_def live_leader_def)
  moreover have "\<exists>r. service c = Some r \<and> holderIdentity r = ident (nodes c ! j)"
    using nj lj by (auto simp: node_ok_def live_leader_def)
  ultimately have eq: "map ident (nodes c) ! i = map ident (nodes c) ! j"
    using i j by auto
  have d: "distinct (map ident (nodes c))" using ok by (simp add: cluster_ok_def)
  show ?thesis using nth_eq_iff_index_eq [OF d, of i j] eq i j by simp
qed

lemma New_identity_nonempty:
  assumes "New e nm ns kc sw pw lg = Inr (Inr inst)"
  shows "lock_Identity (lock inst) \<noteq> []" and "isLeader inst = 0"
  using New_Inr_D [OF assms] by (auto simp: lock_Identity_def)

lemma New_example2:
  "New env_ok2 ''kyverno'' ''kyverno-ns'' (Some (0::nat)) (None :: nat option) None [] =
     Inr (Inr example_le2)"
  by (simp add: New_def env_ok2_def resourcelock_New_def ConfigMapsResourceLock_def
      example_le2_def)

lemma engine_step_length:
  "engine_step e c = Inr c' \<Longrightarrow> length (nodes c') = length (nodes c)"
  by (cases e) (auto split: if_splits sum.splits)

lemma run_engine_length:
  "run_engine es c = Inr c' \<Longrightarrow> length (nodes c') = length (nodes c)"
proof (induction es arbitrary: c)
  case Nil
  then show ?case by simp
next
  case (Cons e es)
  then obtain c1 where 1: "engine_step e c = Inr c1" and 2: "run_engine es c1 = Inr c'"
    by (auto split: sum.splits)
  show ?case using Cons.IH [OF 2] engine_step_length [OF 1] by simp
qed

lemma start_ok:
  assumes "\<forall>n \<in> set (nodes c). phase n = Standby \<and> observed n = None \<and>
      (\<exists>e nm ns kc sw pw lg. New e nm ns kc sw pw lg = Inr (Inr (le (facade n))))"
    and "distinct (map ident (nodes c))"
  shows "cluster_ok c"
proof -
  have "node_ok (service c) (now c) n" if "n \<in> set (nodes c)" for n
  proof -
    from assms(1) that obtain e nm ns kc sw pw lg where
      p: "phase n = Standby" and o: "observed n = None"
      and b: "New e nm ns kc sw pw lg = Inr (Inr (le (facade n)))"
      by blast
    show ?thesis
      using p o New_identity_nonempty [OF b]
      by (simp add: node_ok_def ident_def ID_def IsLeader_def LoadInt64_isLeader_def)
  qed
  then show ?thesis using assms(2) by (simp add: cluster_ok_def)
qed




end
